theory Spec2Isabelle
  imports Main
begin

section \<open>Missionaries and cannibals: the state model of \<^verbatim>\<open>main.cpp\<close>\<close>

text \<open>
  The program searches the state space of the river-crossing puzzle breadth first.
  A \<^verbatim>\<open>State\<close> holds the number of missionaries and cannibals on each bank and the side
  of the boat. The fields are C++ \<^verbatim>\<open>int\<close>s: the model keeps their exact value in \<open>int\<close>
  and checks every arithmetic operation of the source against the range of a 32-bit
  \<^verbatim>\<open>int\<close>. Signed overflow is undefined behaviour in C++, so an operation whose exact
  result is not representable ends the run with the error \<open>SignedOverflow\<close>
  instead of a value.
\<close>

record State =
  leftMissionaries :: int
  leftCannibals :: int
  rightMissionaries :: int
  rightCannibals :: int
  boatOnLeft :: bool

text \<open>\<^verbatim>\<open>State::operator==\<close>: field by field.\<close>

definition State_eq :: "State \<Rightarrow> State \<Rightarrow> bool" where
  "State_eq this other =
     (leftMissionaries this = leftMissionaries other \<and>
      leftCannibals this = leftCannibals other \<and>
      rightMissionaries this = rightMissionaries other \<and>
      rightCannibals this = rightCannibals other \<and>
      boatOnLeft this = boatOnLeft other)"

datatype error = SignedOverflow

definition INT_MAX :: int where
  "INT_MAX = 2147483647"

definition INT_MIN :: int where
  "INT_MIN = - 2147483648"

text \<open>
  \<open>checked v k\<close> continues with the exact result \<open>v\<close> of an \<^verbatim>\<open>int\<close> operation when
  \<open>v\<close> is representable, and is undefined behaviour otherwise.
\<close>

definition checked :: "int \<Rightarrow> (int \<Rightarrow> error + 'a) \<Rightarrow> error + 'a" where
  "checked v k = (if INT_MIN \<le> v \<and> v \<le> INT_MAX then k v else Inl SignedOverflow)"

lemma checked_cong [fundef_cong]:
  "v = v' \<Longrightarrow> (INT_MIN \<le> v' \<Longrightarrow> v' \<le> INT_MAX \<Longrightarrow> k v' = k' v') \<Longrightarrow>
   checked v k = checked v' k'"
  by (simp add: checked_def)

subsection \<open>The safety predicate\<close>

definition isSafe :: "State \<Rightarrow> bool" where
  "isSafe state =
     (\<not> (leftMissionaries state \<noteq> 0 \<and> leftMissionaries state < leftCannibals state) \<and>
      \<not> (rightMissionaries state \<noteq> 0 \<and> rightMissionaries state < rightCannibals state))"

subsection \<open>The move generator\<close>

text \<open>
  \<^verbatim>\<open>for (int i = start; i <= bound; i++) body\<close>, threading the vector of moves built
  so far. The increment is an \<^verbatim>\<open>int\<close> operation like any other: when \<open>i\<close> is
  \<open>INT_MAX\<close> the test \<open>i \<le> bound\<close> cannot fail and \<^verbatim>\<open>i++\<close> overflows.
\<close>

function for_upto :: "(int \<Rightarrow> 'a \<Rightarrow> error + 'a) \<Rightarrow> int \<Rightarrow> int \<Rightarrow> 'a \<Rightarrow> error + 'a" where
  "for_upto body bound i acc =
     (if i \<le> bound then
        (case body i acc of
           Inl e \<Rightarrow> Inl e
         | Inr acc' \<Rightarrow> checked (i + 1) (\<lambda>i'. for_upto body bound i' acc'))
      else Inr acc)"
  by pat_completeness auto
termination
  by (relation "measure (\<lambda>(body, bound, i, acc). nat (bound + 1 - i))") auto

declare for_upto.simps [simp del]

text \<open>
  The body of the inner loop when the boat is on the left: \<open>m\<close> missionaries and \<open>c\<close>
  cannibals cross to the right bank. The successor is appended only if it is safe.
\<close>

definition crossToRight :: "State \<Rightarrow> int \<Rightarrow> int \<Rightarrow> State list \<Rightarrow> error + State list" where
  "crossToRight currentState m c moves =
     checked (m + c) (\<lambda>persons.
       if persons \<ge> 1 \<and> persons \<le> 2 then
         checked (leftMissionaries currentState - m) (\<lambda>lm.
         checked (leftCannibals currentState - c) (\<lambda>lc.
         checked (rightMissionaries currentState + m) (\<lambda>rm.
         checked (rightCannibals currentState + c) (\<lambda>rc.
           let newState = currentState
                 \<lparr>leftMissionaries := lm, leftCannibals := lc,
                  rightMissionaries := rm, rightCannibals := rc, boatOnLeft := False\<rparr>
           in Inr (if isSafe newState then moves @ [newState] else moves)))))
       else Inr moves)"

text \<open>The same body when the boat is on the right.\<close>

definition crossToLeft :: "State \<Rightarrow> int \<Rightarrow> int \<Rightarrow> State list \<Rightarrow> error + State list" where
  "crossToLeft currentState m c moves =
     checked (m + c) (\<lambda>persons.
       if persons \<ge> 1 \<and> persons \<le> 2 then
         checked (leftMissionaries currentState + m) (\<lambda>lm.
         checked (leftCannibals currentState + c) (\<lambda>lc.
         checked (rightMissionaries currentState - m) (\<lambda>rm.
         checked (rightCannibals currentState - c) (\<lambda>rc.
           let newState = currentState
                 \<lparr>leftMissionaries := lm, leftCannibals := lc,
                  rightMissionaries := rm, rightCannibals := rc, boatOnLeft := True\<rparr>
           in Inr (if isSafe newState then moves @ [newState] else moves)))))
       else Inr moves)"

definition getValidMoves :: "State \<Rightarrow> error + State list" where
  "getValidMoves currentState =
     (if boatOnLeft currentState then
        for_upto (\<lambda>m. for_upto (\<lambda>c. crossToRight currentState m c) (leftCannibals currentState) 0)
          (leftMissionaries currentState) 0 []
      else
        for_upto (\<lambda>m. for_upto (\<lambda>c. crossToLeft currentState m c) (rightCannibals currentState) 0)
          (rightMissionaries currentState) 0 [])"

subsection \<open>The search\<close>

text \<open>
  The variables of \<^verbatim>\<open>solveMissionariesCannibals\<close>: the FIFO queue, the set of explored
  states, and what the loop has printed so far (one block of five lines per state, kept
  here as the state printed). The \<^verbatim>\<open>unordered_set\<close> is a set of states up to
  \<^verbatim>\<open>operator==\<close>, which is equality of all five fields; \<^verbatim>\<open>StateHash\<close> only picks the
  bucket.
\<close>

record Search =
  statesToExplore :: "State list"
  exploredStates :: "State set"
  console :: "State list"

text \<open>How one iteration of the \<^verbatim>\<open>while\<close> loop ends.\<close>

datatype flow = Continue Search | Return bool Search | Undefined error

text \<open>
  One iteration, after \<^verbatim>\<open>front()\<close> and \<^verbatim>\<open>pop()\<close> have taken \<open>currentState\<close> off the
  queue.
\<close>

definition loopBody :: "State \<Rightarrow> Search \<Rightarrow> flow" where
  "loopBody currentState \<sigma> =
     (if currentState \<in> exploredStates \<sigma> then Continue \<sigma>
      else
        let \<sigma>1 = \<sigma>\<lparr>exploredStates := insert currentState (exploredStates \<sigma>),
                     console := console \<sigma> @ [currentState]\<rparr>
        in if leftMissionaries currentState = 0 \<and> leftCannibals currentState = 0 \<and>
              \<not> boatOnLeft currentState
           then Return True \<sigma>1
           else
             (case getValidMoves currentState of
                Inl e \<Rightarrow> Undefined e
              | Inr validMoves \<Rightarrow>
                  Continue (\<sigma>1\<lparr>statesToExplore := statesToExplore \<sigma>1 @
                     filter (\<lambda>move. move \<notin> exploredStates \<sigma>1) validMoves\<rparr>)))"

subsection \<open>What the move generator returns\<close>

text \<open>A property of the accumulator that every iteration keeps holds when the loop returns.\<close>

lemma for_upto_invariant:
  assumes "for_upto body bound i acc = Inr r" and "P acc"
    and "\<And>j a a'. i \<le> j \<Longrightarrow> j \<le> bound \<Longrightarrow> P a \<Longrightarrow> body j a = Inr a' \<Longrightarrow> P a'"
  shows "P r"
  using assms
proof (induction body bound i acc rule: for_upto.induct)
  case (1 body bound i acc)
  show ?case
  proof (cases "i \<le> bound")
    case False
    with "1.prems" show ?thesis by (simp add: for_upto.simps)
  next
    case True
    from True "1.prems"(1) obtain acc' where b: "body i acc = Inr acc'"
      by (auto simp: for_upto.simps [of body bound i acc] split: sum.splits)
    from True "1.prems"(1) b have rng: "INT_MIN \<le> i + 1" "i + 1 \<le> INT_MAX"
      and rec: "for_upto body bound (i + 1) acc' = Inr r"
      by (auto simp: for_upto.simps [of body bound i acc] checked_def split: if_splits)
    have "P acc'" using "1.prems"(3) [OF _ True "1.prems"(2) b] by simp
    moreover have "P a'" if "i + 1 \<le> j" "j \<le> bound" "P a" "body j a = Inr a'" for j a a'
      using "1.prems"(3) [of j a a'] that by simp
    ultimately show ?thesis
      using "1.IH" [OF True b rng rec] by blast
  qed
qed

text \<open>
  \<open>crossing s t\<close>: \<open>t\<close> is \<open>s\<close> after one boat trip of \<open>m\<close> missionaries and \<open>c\<close>
  cannibals from the bank of the boat, with one or two persons aboard.
\<close>

definition crossing :: "State \<Rightarrow> State \<Rightarrow> bool" where
  "crossing s t =
     (\<exists>m c. 0 \<le> m \<and> 0 \<le> c \<and> 1 \<le> m + c \<and> m + c \<le> 2 \<and>
        (if boatOnLeft s
         then m \<le> leftMissionaries s \<and> c \<le> leftCannibals s \<and>
              t = s\<lparr>leftMissionaries := leftMissionaries s - m,
                     leftCannibals := leftCannibals s - c,
                     rightMissionaries := rightMissionaries s + m,
                     rightCannibals := rightCannibals s + c, boatOnLeft := False\<rparr>
         else m \<le> rightMissionaries s \<and> c \<le> rightCannibals s \<and>
              t = s\<lparr>leftMissionaries := leftMissionaries s + m,
                     leftCannibals := leftCannibals s + c,
                     rightMissionaries := rightMissionaries s - m,
                     rightCannibals := rightCannibals s - c, boatOnLeft := True\<rparr>))"

definition legal :: "State \<Rightarrow> State list \<Rightarrow> bool" where
  "legal s moves = (\<forall>t \<in> set moves. crossing s t \<and> isSafe t)"

lemma crossToRight_legal:
  assumes "boatOnLeft s" "0 \<le> m" "m \<le> leftMissionaries s" "0 \<le> c" "c \<le> leftCannibals s"
    and "legal s moves" "crossToRight s m c moves = Inr moves'"
  shows "legal s moves'"
proof -
  have "crossing s t \<and> isSafe t" if "t \<in> set moves'" for t
  proof (cases "t \<in> set moves")
    case True
    with assms(6) show ?thesis by (simp add: legal_def)
  next
    case False
    with that assms(7) have "1 \<le> m + c" "m + c \<le> 2" "isSafe t"
      and "t = s\<lparr>leftMissionaries := leftMissionaries s - m,
                     leftCannibals := leftCannibals s - c,
                     rightMissionaries := rightMissionaries s + m,
                     rightCannibals := rightCannibals s + c, boatOnLeft := False\<rparr>"
      by (auto simp: crossToRight_def checked_def Let_def split: if_splits)
    with assms(1-5) show ?thesis
      unfolding crossing_def by auto
  qed
  then show ?thesis by (simp add: legal_def)
qed

lemma crossToLeft_legal:
  assumes "\<not> boatOnLeft s" "0 \<le> m" "m \<le> rightMissionaries s" "0 \<le> c" "c \<le> rightCannibals s"
    and "legal s moves" "crossToLeft s m c moves = Inr moves'"
  shows "legal s moves'"
proof -
  have "crossing s t \<and> isSafe t" if "t \<in> set moves'" for t
  proof (cases "t \<in> set moves")
    case True
    with assms(6) show ?thesis by (simp add: legal_def)
  next
    case False
    with that assms(7) have "1 \<le> m + c" "m + c \<le> 2" "isSafe t"
      and "t = s\<lparr>leftMissionaries := leftMissionaries s + m,
                     leftCannibals := leftCannibals s + c,
                     rightMissionaries := rightMissionaries s - m,
                     rightCannibals := rightCannibals s - c, boatOnLeft := True\<rparr>"
      by (auto simp: crossToLeft_def checked_def Let_def split: if_splits)
    with assms(1-5) show ?thesis
      unfolding crossing_def by auto
  qed
  then show ?thesis by (simp add: legal_def)
qed

lemma getValidMoves_legal:
  assumes "getValidMoves s = Inr moves"
  shows "legal s moves"
proof (cases "boatOnLeft s")
  case True
  with assms have run: "for_upto (\<lambda>m. for_upto (\<lambda>c. crossToRight s m c) (leftCannibals s) 0)
      (leftMissionaries s) 0 [] = Inr moves"
    by (simp add: getValidMoves_def)
  show ?thesis
  proof (rule for_upto_invariant [where P = "legal s", OF run])
    show "legal s []" by (simp add: legal_def)
  next
    fix m a a'
    assume m: "0 \<le> m" "m \<le> leftMissionaries s" and a: "legal s a"
      and inner: "for_upto (\<lambda>c. crossToRight s m c) (leftCannibals s) 0 a = Inr a'"
    show "legal s a'"
      by (rule for_upto_invariant [where P = "legal s", OF inner a]) (rule crossToRight_legal [OF True m])
  qed
next
  case False
  with assms have run: "for_upto (\<lambda>m. for_upto (\<lambda>c. crossToLeft s m c) (rightCannibals s) 0)
      (rightMissionaries s) 0 [] = Inr moves"
    by (simp add: getValidMoves_def)
  show ?thesis
  proof (rule for_upto_invariant [where P = "legal s", OF run])
    show "legal s []" by (simp add: legal_def)
  next
    fix m a a'
    assume m: "0 \<le> m" "m \<le> rightMissionaries s" and a: "legal s a"
      and inner: "for_upto (\<lambda>c. crossToLeft s m c) (rightCannibals s) 0 a = Inr a'"
    show "legal s a'"
      by (rule for_upto_invariant [where P = "legal s", OF inner a]) (rule crossToLeft_legal [OF False m])
  qed
qed


subsection \<open>Termination of the search loop\<close>

text \<open>
  The states reachable from the queue by the move generator form a finite set: a crossing
  keeps both totals, and keeps the left-bank counts between bounds fixed by the starting
  state. Every iteration either explores a new state of that set or shortens the queue.
\<close>

definition successors :: "(State \<times> State) set" where
  "successors = {(s, t). \<exists>moves. getValidMoves s = Inr moves \<and> t \<in> set moves}"

definition reach :: "State set \<Rightarrow> State set" where
  "reach Q = successors\<^sup>* `` Q"

definition universe :: "int \<Rightarrow> int \<Rightarrow> int \<Rightarrow> State set" where
  "universe M C K =
     {t. leftMissionaries t + rightMissionaries t = M \<and> leftCannibals t + rightCannibals t = C \<and>
         \<bar>leftMissionaries t\<bar> \<le> K \<and> \<bar>leftCannibals t\<bar> \<le> K}"

lemma finite_universe: "finite (universe M C K)"
proof -
  let ?f = "\<lambda>(a, b, side). \<lparr>leftMissionaries = a, leftCannibals = b,
      rightMissionaries = M - a, rightCannibals = C - b, boatOnLeft = side\<rparr>"
  have "universe M C K \<subseteq> ?f ` ({- K..K} \<times> {- K..K} \<times> UNIV)"
  proof
    fix t assume t: "t \<in> universe M C K"
    then have "t = ?f (leftMissionaries t, leftCannibals t, boatOnLeft t)"
      by (cases t) (auto simp: universe_def)
    moreover from t have "(leftMissionaries t, leftCannibals t, boatOnLeft t)
        \<in> {- K..K} \<times> {- K..K} \<times> UNIV"
      by (auto simp: universe_def)
    ultimately show "t \<in> ?f ` ({- K..K} \<times> {- K..K} \<times> UNIV)"
      by (rule image_eqI)
  qed
  moreover have "finite (?f ` ({- K..K} \<times> {- K..K} \<times> (UNIV :: bool set)))"
    by simp
  ultimately show ?thesis by (rule finite_subset)
qed

lemma universe_closed:
  assumes "\<bar>M\<bar> \<le> K" "\<bar>C\<bar> \<le> K" "s \<in> universe M C K" "crossing s t"
  shows "t \<in> universe M C K"
  using assms unfolding crossing_def universe_def
  by (auto split: if_splits)

lemma successors_crossing: "(s, t) \<in> successors \<Longrightarrow> crossing s t"
  using getValidMoves_legal by (auto simp: successors_def legal_def)

lemma reach_universe:
  assumes "\<bar>M\<bar> \<le> K" "\<bar>C\<bar> \<le> K" "Q \<subseteq> universe M C K"
  shows "reach Q \<subseteq> universe M C K"
proof
  fix t assume "t \<in> reach Q"
  then obtain s where s: "s \<in> Q" and "(s, t) \<in> successors\<^sup>*"
    by (auto simp: reach_def)
  from this(2) show "t \<in> universe M C K"
  proof (induction rule: rtrancl_induct)
    case base
    with assms(3) s show ?case by auto
  next
    case (step y z)
    then show ?case
      using universe_closed [OF assms(1,2)] successors_crossing by blast
  qed
qed

lemma finite_reach_single: "finite (reach {s})"
proof -
  let ?M = "leftMissionaries s + rightMissionaries s"
  let ?C = "leftCannibals s + rightCannibals s"
  let ?K = "\<bar>?M\<bar> + \<bar>?C\<bar> + \<bar>leftMissionaries s\<bar> + \<bar>leftCannibals s\<bar>"
  have "{s} \<subseteq> universe ?M ?C ?K"
    by (simp add: universe_def)
  then have "reach {s} \<subseteq> universe ?M ?C ?K"
    by (rule reach_universe [rotated 2]) simp_all
  then show ?thesis
    using finite_universe by (rule finite_subset)
qed

lemma reach_Union: "reach Q = (\<Union>s\<in>Q. reach {s})"
  by (auto simp: reach_def)

lemma finite_reach: "finite Q \<Longrightarrow> finite (reach Q)"
  by (subst reach_Union) (simp add: finite_reach_single)

lemma reach_mono: "Q \<subseteq> Q' \<Longrightarrow> reach Q \<subseteq> reach Q'"
  by (auto simp: reach_def)

lemma reach_self: "Q \<subseteq> reach Q"
  by (auto simp: reach_def)

lemma reach_successors:
  assumes "getValidMoves s = Inr moves" "s \<in> Q"
  shows "reach (Q \<union> set moves) = reach Q"
proof
  show "reach Q \<subseteq> reach (Q \<union> set moves)" by (rule reach_mono) simp
  show "reach (Q \<union> set moves) \<subseteq> reach Q"
  proof
    fix t assume "t \<in> reach (Q \<union> set moves)"
    then obtain u where u: "u \<in> Q \<union> set moves" "(u, t) \<in> successors\<^sup>*"
      by (auto simp: reach_def)
    show "t \<in> reach Q"
    proof (cases "u \<in> Q")
      case True
      with u show ?thesis by (auto simp: reach_def)
    next
      case False
      with u assms(1) have "(s, u) \<in> successors" by (auto simp: successors_def)
      from this u(2) have "(s, t) \<in> successors\<^sup>*" by (rule converse_rtrancl_into_rtrancl)
      with assms(2) show ?thesis by (auto simp: reach_def)
    qed
  qed
qed

lemma loopBody_Continue:
  assumes "loopBody currentState \<sigma> = Continue \<sigma>'"
  shows "(currentState \<in> exploredStates \<sigma> \<and> \<sigma>' = \<sigma>) \<or>
         (currentState \<notin> exploredStates \<sigma> \<and>
          (\<exists>validMoves. getValidMoves currentState = Inr validMoves \<and>
             \<sigma>' = \<sigma>\<lparr>statesToExplore := statesToExplore \<sigma> @
                        filter (\<lambda>move. move \<notin> insert currentState (exploredStates \<sigma>)) validMoves,
                      exploredStates := insert currentState (exploredStates \<sigma>),
                      console := console \<sigma> @ [currentState]\<rparr>))"
  using assms
  by (auto simp: loopBody_def Let_def split: if_splits sum.splits)

definition pending :: "Search \<Rightarrow> State set \<times> nat" where
  "pending \<sigma> = (reach (set (statesToExplore \<sigma>)) - exploredStates \<sigma>, length (statesToExplore \<sigma>))"

lemma loopBody_decreases:
  assumes "statesToExplore \<sigma> = currentState # rest"
    and "loopBody currentState (\<sigma>\<lparr>statesToExplore := rest\<rparr>) = Continue \<sigma>'"
  shows "(pending \<sigma>', pending \<sigma>) \<in> finite_psubset <*lex*> less_than"
proof -
  let ?Q = "set (statesToExplore \<sigma>)"
  have fin: "finite (reach ?Q - exploredStates \<sigma>)"
    by (simp add: finite_reach)
  from loopBody_Continue [OF assms(2)] show ?thesis
  proof (elim disjE conjE exE)
    assume "currentState \<in> exploredStates (\<sigma>\<lparr>statesToExplore := rest\<rparr>)"
      and "\<sigma>' = \<sigma>\<lparr>statesToExplore := rest\<rparr>"
    then have e: "exploredStates \<sigma>' = exploredStates \<sigma>" and q: "statesToExplore \<sigma>' = rest"
      by simp_all
    have "reach (set rest) \<subseteq> reach ?Q"
      by (rule reach_mono) (auto simp: assms(1))
    then have "reach (set rest) - exploredStates \<sigma> \<subseteq> reach ?Q - exploredStates \<sigma>"
      by blast
    then have "reach (set rest) - exploredStates \<sigma> \<subset> reach ?Q - exploredStates \<sigma> \<or>
        reach (set rest) - exploredStates \<sigma> = reach ?Q - exploredStates \<sigma>"
      by blast
    with fin show ?thesis
      by (auto simp: pending_def e q assms(1) finite_psubset_def)
  next
    fix validMoves
    assume new: "currentState \<notin> exploredStates (\<sigma>\<lparr>statesToExplore := rest\<rparr>)"
      and mv: "getValidMoves currentState = Inr validMoves"
      and \<sigma>': "\<sigma>' = \<sigma>\<lparr>statesToExplore := rest\<rparr>
          \<lparr>statesToExplore := statesToExplore (\<sigma>\<lparr>statesToExplore := rest\<rparr>) @
             filter (\<lambda>move. move \<notin> insert currentState (exploredStates (\<sigma>\<lparr>statesToExplore := rest\<rparr>))) validMoves,
           exploredStates := insert currentState (exploredStates (\<sigma>\<lparr>statesToExplore := rest\<rparr>)),
           console := console (\<sigma>\<lparr>statesToExplore := rest\<rparr>) @ [currentState]\<rparr>"
    have e: "exploredStates \<sigma>' = insert currentState (exploredStates \<sigma>)"
      by (simp add: \<sigma>')
    have "set (statesToExplore \<sigma>') \<subseteq> ?Q \<union> set validMoves"
      by (auto simp: \<sigma>' assms(1))
    then have "reach (set (statesToExplore \<sigma>')) \<subseteq> reach (?Q \<union> set validMoves)"
      by (rule reach_mono)
    also have "\<dots> = reach ?Q"
      by (rule reach_successors [OF mv]) (simp add: assms(1))
    finally have sub: "reach (set (statesToExplore \<sigma>')) \<subseteq> reach ?Q" .
    have "currentState \<in> reach ?Q"
      using reach_self [of ?Q] by (auto simp: assms(1))
    with new sub have "reach (set (statesToExplore \<sigma>')) - exploredStates \<sigma>' \<subset>
        reach ?Q - exploredStates \<sigma>"
      by (auto simp: e)
    with fin show ?thesis
      by (simp add: pending_def finite_psubset_def)
  qed
qed

text \<open>
  The \<^verbatim>\<open>while (!statesToExplore.empty())\<close> loop. It returns the function's result and
  the final value of its variables, or the undefined behaviour the move generator ran into.
\<close>

function whileLoop :: "Search \<Rightarrow> error + bool \<times> Search" where
  "whileLoop \<sigma> =
     (case statesToExplore \<sigma> of
        [] \<Rightarrow> Inr (False, \<sigma>)
      | currentState # rest \<Rightarrow>
          (case loopBody currentState (\<sigma>\<lparr>statesToExplore := rest\<rparr>) of
             Continue \<sigma>' \<Rightarrow> whileLoop \<sigma>'
           | Return found \<sigma>' \<Rightarrow> Inr (found, \<sigma>')
           | Undefined e \<Rightarrow> Inl e))"
  by pat_completeness auto
termination
proof (relation "inv_image (finite_psubset <*lex*> less_than) pending")
  show "wf (inv_image (finite_psubset <*lex*> less_than) pending)"
    by (intro wf_inv_image wf_lex_prod wf_finite_psubset wf_less_than)
next
  fix \<sigma> currentState rest \<sigma>'
  assume "statesToExplore \<sigma> = currentState # rest"
    and "loopBody currentState (\<sigma>\<lparr>statesToExplore := rest\<rparr>) = Continue \<sigma>'"
  then show "(\<sigma>', \<sigma>) \<in> inv_image (finite_psubset <*lex*> less_than) pending"
    by (simp add: loopBody_decreases del: in_lex_prod)
qed

declare whileLoop.simps [simp del]


text \<open>
  The body of \<^verbatim>\<open>solveMissionariesCannibals\<close>: the loop run from the queue that holds the
  initial state, with nothing explored and nothing printed.
\<close>

definition search :: "State \<Rightarrow> error + bool \<times> Search" where
  "search initialState =
     whileLoop \<lparr>statesToExplore = [initialState], exploredStates = {}, console = []\<rparr>"

text \<open>The value \<^verbatim>\<open>solveMissionariesCannibals\<close> returns.\<close>

definition solveMissionariesCannibals :: "State \<Rightarrow> error + bool" where
  "solveMissionariesCannibals initialState =
     (case search initialState of Inl e \<Rightarrow> Inl e | Inr (found, \<sigma>) \<Rightarrow> Inr found)"

text \<open>
  The values the loop variables take during a run from \<open>initialState\<close>: before the first
  iteration, and after every iteration that continues or returns.
\<close>

inductive during :: "State \<Rightarrow> Search \<Rightarrow> bool" for initialState :: State where
  entry: "during initialState
            \<lparr>statesToExplore = [initialState], exploredStates = {}, console = []\<rparr>"
| iteration: "during initialState \<sigma> \<Longrightarrow> statesToExplore \<sigma> = currentState # rest \<Longrightarrow>
     loopBody currentState (\<sigma>\<lparr>statesToExplore := rest\<rparr>) = Continue \<sigma>' \<Longrightarrow>
     during initialState \<sigma>'"
| returning: "during initialState \<sigma> \<Longrightarrow> statesToExplore \<sigma> = currentState # rest \<Longrightarrow>
     loopBody currentState (\<sigma>\<lparr>statesToExplore := rest\<rparr>) = Return found \<sigma>' \<Longrightarrow>
     during initialState \<sigma>'"

subsection \<open>The command line\<close>

text \<open>
  \<^verbatim>\<open>std::stoi\<close> belongs to the C++ library, not to the program: it is a parameter of the
  model, a function from the argument string to the parsed \<^verbatim>\<open>int\<close> or to the exception
  it throws.
\<close>

datatype stoi_error = InvalidArgument | OutOfRange

text \<open>How the \<^verbatim>\<open>switch\<close> statement is left.\<close>

datatype control = Break | ReturnEarly int string | Throw stoi_error

datatype printed = StateLines State | TextLine string

datatype outcome = Exit int "printed list" | Terminate stoi_error | UndefinedBehaviour error

definition case2 :: "(string \<Rightarrow> stoi_error + int) \<Rightarrow> string list \<Rightarrow> State \<Rightarrow> State \<times> control" where
  "case2 stoi argv initialState =
     (case stoi (argv ! 1) of
        Inl x \<Rightarrow> (initialState, Throw x)
      | Inr v \<Rightarrow>
          let initialState = initialState\<lparr>leftMissionaries := v\<rparr>
          in if leftMissionaries initialState < 0
             then (initialState, ReturnEarly 1 ''Missionary count cannot be negative.'')
             else (initialState, Break))"

text \<open>\<^verbatim>\<open>case 3\<close> has no \<^verbatim>\<open>break\<close>: it falls through to \<^verbatim>\<open>case 2\<close>.\<close>

definition case3 :: "(string \<Rightarrow> stoi_error + int) \<Rightarrow> string list \<Rightarrow> State \<Rightarrow> State \<times> control" where
  "case3 stoi argv initialState =
     (case stoi (argv ! 2) of
        Inl x \<Rightarrow> (initialState, Throw x)
      | Inr v \<Rightarrow>
          let initialState = initialState\<lparr>leftCannibals := v\<rparr>
          in if leftCannibals initialState < 0
             then (initialState, ReturnEarly 1 ''Cannibal count cannot be negative.'')
             else case2 stoi argv initialState)"

text \<open>
  The declaration \<^verbatim>\<open>State initialState;\<close> with the default member initialisers, and the
  \<^verbatim>\<open>switch (argc)\<close>; \<open>argv\<close> holds the program name and the arguments, so \<^verbatim>\<open>argc\<close> is
  its length.
\<close>

definition switchArgc :: "(string \<Rightarrow> stoi_error + int) \<Rightarrow> string list \<Rightarrow> State \<times> control" where
  "switchArgc stoi argv =
     (let initialState = \<lparr>leftMissionaries = 0, leftCannibals = 0, rightMissionaries = 0,
            rightCannibals = 0, boatOnLeft = True\<rparr>
      in if length argv = 3 then case3 stoi argv initialState
         else if length argv = 2 then case2 stoi argv initialState
         else (initialState\<lparr>leftMissionaries := 3, leftCannibals := 3\<rparr>, Break))"

definition main :: "(string \<Rightarrow> stoi_error + int) \<Rightarrow> string list \<Rightarrow> outcome" where
  "main stoi argv =
     (case switchArgc stoi argv of
        (initialState, Throw x) \<Rightarrow> Terminate x
      | (initialState, ReturnEarly status message) \<Rightarrow> Exit status [TextLine message]
      | (initialState, Break) \<Rightarrow>
          (case search initialState of
             Inl e \<Rightarrow> UndefinedBehaviour e
           | Inr (found, \<sigma>) \<Rightarrow>
               Exit 0 (map StateLines (console \<sigma>) @
                 [TextLine (if found then ''Solution found!'' else ''No solution exists.'')])))"


section \<open>Invariants of the search\<close>

subsection \<open>When the loops of the move generator overflow, and when they return\<close>

text \<open>A loop whose bound is \<open>INT_MAX\<close> or more cannot return: its counter overflows.\<close>

lemma for_upto_overflows:
  "i \<le> INT_MAX \<Longrightarrow> INT_MAX \<le> bound \<Longrightarrow> for_upto body bound i acc = Inl SignedOverflow"
proof (induction body bound i acc rule: for_upto.induct)
  case (1 body bound i acc)
  from "1.prems" have le: "i \<le> bound" by simp
  show ?case
  proof (cases "body i acc")
    case (Inl e)
    with le show ?thesis by (cases e) (simp add: for_upto.simps [of body bound i acc])
  next
    case (Inr acc')
    show ?thesis
    proof (cases "INT_MIN \<le> i + 1 \<and> i + 1 \<le> INT_MAX")
      case True
      with "1.IH" [OF le Inr] "1.prems"(2) have "for_upto body bound (i + 1) acc' = Inl SignedOverflow"
        by simp
      with le Inr True show ?thesis
        by (simp add: for_upto.simps [of body bound i acc] checked_def)
    next
      case False
      with le Inr show ?thesis
        by (auto simp: for_upto.simps [of body bound i acc] checked_def)
    qed
  qed
qed

text \<open>A loop from a non-negative start to a bound below \<open>INT_MAX\<close> returns if its body does.\<close>

lemma for_upto_returns:
  assumes "0 \<le> i" "bound < INT_MAX"
    and "\<And>j a. i \<le> j \<Longrightarrow> j \<le> bound \<Longrightarrow> \<exists>a'. body j a = Inr a'"
  shows "\<exists>r. for_upto body bound i acc = Inr r"
  using assms
proof (induction body bound i acc rule: for_upto.induct)
  case (1 body bound i acc)
  show ?case
  proof (cases "i \<le> bound")
    case False
    then show ?thesis by (simp add: for_upto.simps [of body bound i acc])
  next
    case True
    with "1.prems"(3) [of i acc] obtain acc' where b: "body i acc = Inr acc'" by auto
    from True "1.prems"(1,2) have rng: "INT_MIN \<le> i + 1" "i + 1 \<le> INT_MAX"
      by (simp_all add: INT_MIN_def)
    have "\<exists>a'. body j a = Inr a'" if "i + 1 \<le> j" "j \<le> bound" for j a
      using "1.prems"(3) [of j a] that by simp
    with "1.IH" [OF True b rng] "1.prems"(1,2)
    obtain r where "for_upto body bound (i + 1) acc' = Inr r" by auto
    with True b rng show ?thesis
      by (simp add: for_upto.simps [of body bound i acc] checked_def)
  qed
qed

text \<open>
  \<open>within M C s\<close>: the four counts of \<open>s\<close> are non-negative, with \<open>M\<close> missionaries
  and \<open>C\<close> cannibals in all.
\<close>

definition within :: "int \<Rightarrow> int \<Rightarrow> State \<Rightarrow> bool" where
  "within M C s =
     (0 \<le> leftMissionaries s \<and> 0 \<le> leftCannibals s \<and>
      0 \<le> rightMissionaries s \<and> 0 \<le> rightCannibals s \<and>
      leftMissionaries s + rightMissionaries s = M \<and>
      leftCannibals s + rightCannibals s = C)"

lemma crossing_within: "within M C s \<Longrightarrow> crossing s t \<Longrightarrow> within M C t"
  unfolding crossing_def within_def by (auto split: if_splits)

lemma crossToRight_returns:
  assumes "within M C s" "M + C \<le> INT_MAX"
    and "0 \<le> m" "m \<le> leftMissionaries s" "0 \<le> c" "c \<le> leftCannibals s"
  shows "\<exists>moves'. crossToRight s m c moves = Inr moves'"
  using assms
  by (auto simp: crossToRight_def checked_def within_def Let_def INT_MIN_def)

lemma crossToLeft_returns:
  assumes "within M C s" "M + C \<le> INT_MAX"
    and "0 \<le> m" "m \<le> rightMissionaries s" "0 \<le> c" "c \<le> rightCannibals s"
  shows "\<exists>moves'. crossToLeft s m c moves = Inr moves'"
  using assms
  by (auto simp: crossToLeft_def checked_def within_def Let_def INT_MIN_def)

lemma getValidMoves_returns:
  assumes w: "within M C s" and small: "M < INT_MAX" "C < INT_MAX" "M + C \<le> INT_MAX"
  shows "\<exists>moves. getValidMoves s = Inr moves"
proof (cases "boatOnLeft s")
  case True
  from w small have b: "leftMissionaries s < INT_MAX" "leftCannibals s < INT_MAX"
    by (auto simp: within_def)
  have "\<exists>r. for_upto (\<lambda>m. for_upto (\<lambda>c. crossToRight s m c) (leftCannibals s) 0)
      (leftMissionaries s) 0 [] = Inr r"
  proof (rule for_upto_returns [OF _ b(1)])
    fix m a assume m: "0 \<le> m" "m \<le> leftMissionaries s"
    show "\<exists>a'. for_upto (\<lambda>c. crossToRight s m c) (leftCannibals s) 0 a = Inr a'"
      by (rule for_upto_returns [OF _ b(2)])
         (simp_all add: crossToRight_returns [OF w small(3) m])
  qed simp
  with True show ?thesis by (simp add: getValidMoves_def)
next
  case False
  from w small have b: "rightMissionaries s < INT_MAX" "rightCannibals s < INT_MAX"
    by (auto simp: within_def)
  have "\<exists>r. for_upto (\<lambda>m. for_upto (\<lambda>c. crossToLeft s m c) (rightCannibals s) 0)
      (rightMissionaries s) 0 [] = Inr r"
  proof (rule for_upto_returns [OF _ b(1)])
    fix m a assume m: "0 \<le> m" "m \<le> rightMissionaries s"
    show "\<exists>a'. for_upto (\<lambda>c. crossToLeft s m c) (rightCannibals s) 0 a = Inr a'"
      by (rule for_upto_returns [OF _ b(2)])
         (simp_all add: crossToLeft_returns [OF w small(3) m])
  qed simp
  with False show ?thesis by (simp add: getValidMoves_def)
qed

lemma getValidMoves_INT_MAX:
  "getValidMoves \<lparr>leftMissionaries = 2147483647, leftCannibals = 0, rightMissionaries = 0,
      rightCannibals = 0, boatOnLeft = True\<rparr> = Inl SignedOverflow"
  by (simp add: getValidMoves_def for_upto_overflows INT_MAX_def)

lemma search_INT_MAX:
  "search \<lparr>leftMissionaries = 2147483647, leftCannibals = 0, rightMissionaries = 0,
      rightCannibals = 0, boatOnLeft = True\<rparr> = Inl SignedOverflow"
  by (simp add: search_def whileLoop.simps loopBody_def getValidMoves_INT_MAX)


subsection \<open>What an iteration of the search keeps\<close>

lemma crossing_totals:
  "crossing s t \<Longrightarrow>
     leftMissionaries t + rightMissionaries t = leftMissionaries s + rightMissionaries s \<and>
     leftCannibals t + rightCannibals t = leftCannibals s + rightCannibals s"
  by (cases "boatOnLeft s") (auto simp: crossing_def)

lemma loopBody_Return:
  assumes "loopBody currentState \<sigma> = Return found \<sigma>'"
  shows "found \<and> currentState \<notin> exploredStates \<sigma> \<and>
         \<sigma>' = \<sigma>\<lparr>exploredStates := insert currentState (exploredStates \<sigma>),
                  console := console \<sigma> @ [currentState]\<rparr>"
  using assms
  by (auto simp: loopBody_def Let_def split: if_splits sum.splits)

text \<open>The states an iteration leaves in the queue and in the explored set.\<close>

definition held :: "Search \<Rightarrow> State set" where
  "held \<sigma> = set (statesToExplore \<sigma>) \<union> exploredStates \<sigma>"

lemma held_Continue:
  assumes "loopBody currentState \<sigma> = Continue \<sigma>'"
  shows "held \<sigma>' \<subseteq> held \<sigma> \<union> {currentState} \<union> {t. crossing currentState t}"
  using loopBody_Continue [OF assms] getValidMoves_legal
  by (auto simp: held_def legal_def)

lemma held_Return:
  assumes "loopBody currentState \<sigma> = Return found \<sigma>'"
  shows "held \<sigma>' \<subseteq> held \<sigma> \<union> {currentState}"
  using loopBody_Return [OF assms] by (auto simp: held_def)

lemma held_pop:
  "statesToExplore \<sigma> = currentState # rest \<Longrightarrow>
   held (\<sigma>\<lparr>statesToExplore := rest\<rparr>) \<union> {currentState} = held \<sigma>"
  by (auto simp: held_def)

text \<open>
  The invariant of the loop for a run that starts within \<open>M\<close> and \<open>C\<close>: every state held
  is within them, and the states printed are the explored states, each printed once.
\<close>

definition tidy :: "int \<Rightarrow> int \<Rightarrow> Search \<Rightarrow> bool" where
  "tidy M C \<sigma> =
     ((\<forall>s \<in> held \<sigma>. within M C s) \<and> set (console \<sigma>) = exploredStates \<sigma> \<and>
      distinct (console \<sigma>))"

lemma tidy_pop:
  assumes "tidy M C \<sigma>" "statesToExplore \<sigma> = currentState # rest"
  shows "tidy M C (\<sigma>\<lparr>statesToExplore := rest\<rparr>)" "within M C currentState"
  using assms by (auto simp: tidy_def held_def)

lemma tidy_Continue:
  assumes "tidy M C \<sigma>" "within M C currentState" "loopBody currentState \<sigma> = Continue \<sigma>'"
  shows "tidy M C \<sigma>'"
proof -
  have "within M C t" if "t \<in> held \<sigma>'" for t
    using held_Continue [OF assms(3)] that assms(1,2) crossing_within [of M C currentState t]
    by (auto simp: tidy_def)
  moreover have "set (console \<sigma>') = exploredStates \<sigma>' \<and> distinct (console \<sigma>')"
    using loopBody_Continue [OF assms(3)] assms(1) by (auto simp: tidy_def)
  ultimately show ?thesis by (simp add: tidy_def)
qed

lemma tidy_Return:
  assumes "tidy M C \<sigma>" "within M C currentState" "loopBody currentState \<sigma> = Return found \<sigma>'"
  shows "tidy M C \<sigma>'"
proof -
  have "within M C t" if "t \<in> held \<sigma>'" for t
    using held_Return [OF assms(3)] that assms(1,2) by (auto simp: tidy_def)
  moreover have "set (console \<sigma>') = exploredStates \<sigma>' \<and> distinct (console \<sigma>')"
    using loopBody_Return [OF assms(3)] assms(1) by (auto simp: tidy_def)
  ultimately show ?thesis by (simp add: tidy_def)
qed

lemma loopBody_defined:
  assumes "within M C currentState" "M < INT_MAX" "C < INT_MAX" "M + C \<le> INT_MAX"
  shows "loopBody currentState \<sigma> \<noteq> Undefined e"
  using getValidMoves_returns [OF assms]
  by (auto simp: loopBody_def Let_def split: sum.splits)

lemma whileLoop_returns:
  assumes "tidy M C \<sigma>" "M < INT_MAX" "C < INT_MAX" "M + C \<le> INT_MAX"
  shows "\<exists>found \<sigma>'. whileLoop \<sigma> = Inr (found, \<sigma>') \<and> tidy M C \<sigma>'"
  using assms(1)
proof (induction \<sigma> rule: whileLoop.induct)
  case (1 \<sigma>)
  show ?case
  proof (cases "statesToExplore \<sigma>")
    case Nil
    with "1.prems" show ?thesis by (auto simp: whileLoop.simps [of \<sigma>])
  next
    case (Cons currentState rest)
    note pop = tidy_pop [OF "1.prems" Cons]
    show ?thesis
    proof (cases "loopBody currentState (\<sigma>\<lparr>statesToExplore := rest\<rparr>)")
      case (Continue \<sigma>')
      from "1.IH" [OF Cons Continue tidy_Continue [OF pop Continue]] Cons Continue
      show ?thesis by (simp add: whileLoop.simps [of \<sigma>])
    next
      case (Return found \<sigma>')
      from tidy_Return [OF pop Return] Cons Return
      show ?thesis by (simp add: whileLoop.simps [of \<sigma>])
    next
      case (Undefined e)
      with loopBody_defined [OF pop(2) assms(2-4)] show ?thesis by blast
    qed
  qed
qed

lemma card_within:
  assumes "0 \<le> M" "0 \<le> C"
  shows "finite {s. within M C s}" "int (card {s. within M C s}) \<le> 2 * (M + 1) * (C + 1)"
proof -
  let ?f = "\<lambda>(a, b, side). \<lparr>leftMissionaries = a, leftCannibals = b,
      rightMissionaries = M - a, rightCannibals = C - b, boatOnLeft = side\<rparr>"
  let ?D = "{0..M} \<times> {0..C} \<times> (UNIV :: bool set)"
  have sub: "{s. within M C s} \<subseteq> ?f ` ?D"
  proof
    fix t assume "t \<in> {s. within M C s}"
    then have w: "within M C t" by simp
    then have "t = ?f (leftMissionaries t, leftCannibals t, boatOnLeft t)"
      by (cases t) (auto simp: within_def)
    moreover from w have "(leftMissionaries t, leftCannibals t, boatOnLeft t) \<in> ?D"
      by (auto simp: within_def)
    ultimately show "t \<in> ?f ` ?D" by (rule image_eqI)
  qed
  have fin: "finite ?D" by simp
  from sub fin show "finite {s. within M C s}"
    by (meson finite_imageI finite_subset)
  have "card {s. within M C s} \<le> card (?f ` ?D)"
    using sub fin by (simp add: card_mono)
  also have "\<dots> \<le> card ?D" using fin by (rule card_image_le)
  also have "\<dots> = nat (M + 1) * (nat (C + 1) * 2)"
    by (simp add: card_cartesian_product card_UNIV_bool)
  finally have "int (card {s. within M C s}) \<le> int (nat (M + 1) * (nat (C + 1) * 2))"
    by (simp only: of_nat_le_iff)
  also have "\<dots> = 2 * (M + 1) * (C + 1)" using assms by (simp add: algebra_simps)
  finally show "int (card {s. within M C s}) \<le> 2 * (M + 1) * (C + 1)" .
qed

text \<open>The variables with which the loop returns are values taken during the run.\<close>

lemma whileLoop_during:
  assumes "during initialState \<sigma>" "whileLoop \<sigma> = Inr (found, \<sigma>')"
  shows "during initialState \<sigma>'"
  using assms
proof (induction \<sigma> rule: whileLoop.induct)
  case (1 \<sigma>)
  show ?case
  proof (cases "statesToExplore \<sigma>")
    case Nil
    with "1.prems" show ?thesis by (simp add: whileLoop.simps [of \<sigma>])
  next
    case (Cons currentState rest)
    show ?thesis
    proof (cases "loopBody currentState (\<sigma>\<lparr>statesToExplore := rest\<rparr>)")
      case (Continue \<sigma>1)
      from "1.prems"(2) Cons Continue have "whileLoop \<sigma>1 = Inr (found, \<sigma>')"
        by (simp add: whileLoop.simps [of \<sigma>])
      with "1.IH" [OF Cons Continue during.iteration [OF "1.prems"(1) Cons Continue]]
      show ?thesis .
    next
      case (Return b \<sigma>1)
      from "1.prems"(2) Cons Return have "\<sigma>' = \<sigma>1"
        by (simp add: whileLoop.simps [of \<sigma>])
      with during.returning [OF "1.prems"(1) Cons Return] show ?thesis by simp
    next
      case (Undefined e)
      with "1.prems"(2) Cons show ?thesis by (simp add: whileLoop.simps [of \<sigma>])
    qed
  qed
qed

section \<open>Properties\<close>

subsection \<open>Equality of states\<close>

text \<open>
  \<^verbatim>\<open>operator==\<close> is equality of records, which is why the explored set is modelled
  as a set of records.
\<close>

lemma State_eq_iff: "State_eq a b \<longleftrightarrow> a = b"
  by (cases a, cases b) (auto simp: State_eq_def)

lemma crossing_boat: "crossing s t \<Longrightarrow> boatOnLeft t = (\<not> boatOnLeft s)"
  by (cases "boatOnLeft s") (auto simp: crossing_def)

subsection \<open>The safety predicate and the move generator\<close>

text \<open>
  C6: \<open>isSafe\<close> holds exactly when, on each bank by itself, there is no missionary or
  there are at least as many missionaries as cannibals. This holds for every state, so
  in particular for the states with non-negative counts.
\<close>

theorem isSafe_banks:
  "isSafe state \<longleftrightarrow>
     (leftMissionaries state = 0 \<or> leftMissionaries state \<ge> leftCannibals state) \<and>
     (rightMissionaries state = 0 \<or> rightMissionaries state \<ge> rightCannibals state)"
  by (auto simp: isSafe_def)

text \<open>
  C3: every state in the sequence that \<open>getValidMoves\<close> returns satisfies \<open>isSafe\<close>.
\<close>

theorem getValidMoves_safe:
  assumes "getValidMoves state = Inr moves"
  shows "\<forall>move \<in> set moves. isSafe move"
  using getValidMoves_legal [OF assms] by (simp add: legal_def)

theorem getValidMoves_safe_witness:
  "getValidMoves \<lparr>leftMissionaries = 3, leftCannibals = 3, rightMissionaries = 0,
      rightCannibals = 0, boatOnLeft = True\<rparr> =
     Inr [\<lparr>leftMissionaries = 3, leftCannibals = 2, rightMissionaries = 0,
            rightCannibals = 1, boatOnLeft = False\<rparr>,
          \<lparr>leftMissionaries = 3, leftCannibals = 1, rightMissionaries = 0,
            rightCannibals = 2, boatOnLeft = False\<rparr>,
          \<lparr>leftMissionaries = 2, leftCannibals = 2, rightMissionaries = 1,
            rightCannibals = 1, boatOnLeft = False\<rparr>] \<and>
   isSafe \<lparr>leftMissionaries = 3, leftCannibals = 2, rightMissionaries = 0,
            rightCannibals = 1, boatOnLeft = False\<rparr> \<and>
   isSafe \<lparr>leftMissionaries = 3, leftCannibals = 1, rightMissionaries = 0,
            rightCannibals = 2, boatOnLeft = False\<rparr> \<and>
   isSafe \<lparr>leftMissionaries = 2, leftCannibals = 2, rightMissionaries = 1,
            rightCannibals = 1, boatOnLeft = False\<rparr>"
proof -
  have moves: "getValidMoves \<lparr>leftMissionaries = 3, leftCannibals = 3, rightMissionaries = 0,
      rightCannibals = 0, boatOnLeft = True\<rparr> =
     Inr [\<lparr>leftMissionaries = 3, leftCannibals = 2, rightMissionaries = 0,
            rightCannibals = 1, boatOnLeft = False\<rparr>,
          \<lparr>leftMissionaries = 3, leftCannibals = 1, rightMissionaries = 0,
            rightCannibals = 2, boatOnLeft = False\<rparr>,
          \<lparr>leftMissionaries = 2, leftCannibals = 2, rightMissionaries = 1,
            rightCannibals = 1, boatOnLeft = False\<rparr>]"
    by code_simp
  from getValidMoves_safe [OF moves] moves show ?thesis by simp
qed

text \<open>
  C8: no state in the sequence that \<open>getValidMoves\<close> returns is equal, by
  \<^verbatim>\<open>operator==\<close>, to the input state: every successor has the boat on the other side.
\<close>

theorem getValidMoves_flips_boat:
  assumes "getValidMoves state = Inr moves" and "move \<in> set moves"
  shows "\<not> State_eq move state \<and> boatOnLeft move = (\<not> boatOnLeft state)"
proof -
  from getValidMoves_legal [OF assms(1)] assms(2) have "crossing state move"
    by (simp add: legal_def)
  then have "boatOnLeft move = (\<not> boatOnLeft state)"
    by (rule crossing_boat)
  then show ?thesis
    by (auto simp: State_eq_def)
qed

theorem getValidMoves_flips_boat_witness:
  "getValidMoves \<lparr>leftMissionaries = 1, leftCannibals = 1, rightMissionaries = 2,
      rightCannibals = 2, boatOnLeft = False\<rparr> =
     Inr [\<lparr>leftMissionaries = 2, leftCannibals = 2, rightMissionaries = 1,
            rightCannibals = 1, boatOnLeft = True\<rparr>,
          \<lparr>leftMissionaries = 3, leftCannibals = 1, rightMissionaries = 0,
            rightCannibals = 2, boatOnLeft = True\<rparr>] \<and>
   \<not> State_eq \<lparr>leftMissionaries = 2, leftCannibals = 2, rightMissionaries = 1,
            rightCannibals = 1, boatOnLeft = True\<rparr>
          \<lparr>leftMissionaries = 1, leftCannibals = 1, rightMissionaries = 2,
            rightCannibals = 2, boatOnLeft = False\<rparr> \<and>
   boatOnLeft \<lparr>leftMissionaries = 2, leftCannibals = 2, rightMissionaries = 1,
            rightCannibals = 1, boatOnLeft = True\<rparr>"
proof -
  have moves: "getValidMoves \<lparr>leftMissionaries = 1, leftCannibals = 1, rightMissionaries = 2,
      rightCannibals = 2, boatOnLeft = False\<rparr> =
     Inr [\<lparr>leftMissionaries = 2, leftCannibals = 2, rightMissionaries = 1,
            rightCannibals = 1, boatOnLeft = True\<rparr>,
          \<lparr>leftMissionaries = 3, leftCannibals = 1, rightMissionaries = 0,
            rightCannibals = 2, boatOnLeft = True\<rparr>]"
    by code_simp
  from getValidMoves_flips_boat [OF moves,
      of "\<lparr>leftMissionaries = 2, leftCannibals = 2, rightMissionaries = 1,
            rightCannibals = 1, boatOnLeft = True\<rparr>"] moves
  show ?thesis by simp
qed

subsection \<open>The search\<close>

text \<open>
  C4: during a run of the search from any initial state, every state in the queue or in
  the explored set has the initial state's total of missionaries (left plus right) and
  its total of cannibals.
\<close>

theorem search_conserves_totals:
  assumes "during initialState \<sigma>"
    and "t \<in> set (statesToExplore \<sigma>) \<union> exploredStates \<sigma>"
  shows "leftMissionaries t + rightMissionaries t =
           leftMissionaries initialState + rightMissionaries initialState \<and>
         leftCannibals t + rightCannibals t =
           leftCannibals initialState + rightCannibals initialState"
  using assms
proof (induction arbitrary: t rule: during.induct)
  case entry
  then show ?case by simp
next
  case (iteration \<sigma> currentState rest \<sigma>')
  have cur: "currentState \<in> set (statesToExplore \<sigma>) \<union> exploredStates \<sigma>"
    by (simp add: iteration.hyps(2))
  from iteration.prems have "t \<in> held \<sigma>'" by (simp add: held_def)
  with held_Continue [OF iteration.hyps(3)] held_pop [OF iteration.hyps(2)]
  have "t \<in> held \<sigma> \<or> crossing currentState t" by auto
  then show ?case
  proof
    assume "t \<in> held \<sigma>"
    then show ?thesis using iteration.IH [of t] by (simp add: held_def)
  next
    assume "crossing currentState t"
    from crossing_totals [OF this] iteration.IH [OF cur] show ?thesis by simp
  qed
next
  case (returning \<sigma> currentState rest found \<sigma>')
  from returning.prems have "t \<in> held \<sigma>'" by (simp add: held_def)
  with held_Return [OF returning.hyps(3)] held_pop [OF returning.hyps(2)]
  have "t \<in> held \<sigma>" by auto
  then show ?case using returning.IH [of t] by (simp add: held_def)
qed

text \<open>The run from one missionary on the left bank, after its first iteration.\<close>

theorem search_conserves_totals_witness:
  "during \<lparr>leftMissionaries = 1, leftCannibals = 0, rightMissionaries = 0,
            rightCannibals = 0, boatOnLeft = True\<rparr>
     \<lparr>statesToExplore = [\<lparr>leftMissionaries = 0, leftCannibals = 0, rightMissionaries = 1,
          rightCannibals = 0, boatOnLeft = False\<rparr>],
      exploredStates = {\<lparr>leftMissionaries = 1, leftCannibals = 0, rightMissionaries = 0,
          rightCannibals = 0, boatOnLeft = True\<rparr>},
      console = [\<lparr>leftMissionaries = 1, leftCannibals = 0, rightMissionaries = 0,
          rightCannibals = 0, boatOnLeft = True\<rparr>]\<rparr> \<and>
   leftMissionaries \<lparr>leftMissionaries = 0, leftCannibals = 0, rightMissionaries = 1,
          rightCannibals = 0, boatOnLeft = False\<rparr> +
   rightMissionaries \<lparr>leftMissionaries = 0, leftCannibals = 0, rightMissionaries = 1,
          rightCannibals = 0, boatOnLeft = False\<rparr> = 1 + 0 \<and>
   leftCannibals \<lparr>leftMissionaries = 0, leftCannibals = 0, rightMissionaries = 1,
          rightCannibals = 0, boatOnLeft = False\<rparr> +
   rightCannibals \<lparr>leftMissionaries = 0, leftCannibals = 0, rightMissionaries = 1,
          rightCannibals = 0, boatOnLeft = False\<rparr> = 0 + 0"
proof -
  let ?init = "\<lparr>leftMissionaries = 1, leftCannibals = 0, rightMissionaries = 0,
            rightCannibals = 0, boatOnLeft = True\<rparr>"
  let ?next = "\<lparr>leftMissionaries = 0, leftCannibals = 0, rightMissionaries = 1,
          rightCannibals = 0, boatOnLeft = False\<rparr>"
  let ?\<sigma> = "\<lparr>statesToExplore = [?next], exploredStates = {?init}, console = [?init]\<rparr>"
  have moves: "getValidMoves ?init = Inr [?next]"
    by code_simp
  have "loopBody ?init \<lparr>statesToExplore = [], exploredStates = {}, console = []\<rparr> =
      Continue ?\<sigma>"
    by (simp add: loopBody_def moves)
  then have d: "during ?init ?\<sigma>"
    using during.iteration [OF during.entry, of ?init ?init "[]" ?\<sigma>] by simp
  from search_conserves_totals [OF d, of ?next] d show ?thesis by simp
qed

text \<open>
  C5 says that the search terminates from every initial state with non-negative counts.
  With \<open>INT_MAX\<close> missionaries on the left bank it does not return: the loop
  \<^verbatim>\<open>for (int m = 0; m <= currentState.leftMissionaries; m++)\<close> of the move generator
  cannot leave by its test, and its counter overflows.
\<close>

theorem search_overflows_at_INT_MAX:
  "search \<lparr>leftMissionaries = 2147483647, leftCannibals = 0, rightMissionaries = 0,
      rightCannibals = 0, boatOnLeft = True\<rparr> = Inl SignedOverflow \<and>
   solveMissionariesCannibals \<lparr>leftMissionaries = 2147483647, leftCannibals = 0,
      rightMissionaries = 0, rightCannibals = 0, boatOnLeft = True\<rparr> = Inl SignedOverflow"
  by (simp add: solveMissionariesCannibals_def search_INT_MAX)

text \<open>
  C5, amended: for every initial state with non-negative counts whose totals \<open>M\<close> of
  missionaries and \<open>C\<close> of cannibals are below \<open>INT_MAX\<close> with \<open>M + C \<le> INT_MAX\<close>, the
  search returns; the states it inserted into the explored set and expanded, in the
  order it printed them, are pairwise distinct, and there are at most
  \<open>2 * (M + 1) * (C + 1)\<close> of them.
\<close>

theorem search_terminates_bounded:
  assumes nonneg: "0 \<le> leftMissionaries initialState" "0 \<le> leftCannibals initialState"
      "0 \<le> rightMissionaries initialState" "0 \<le> rightCannibals initialState"
    and M: "M = leftMissionaries initialState + rightMissionaries initialState"
    and C: "C = leftCannibals initialState + rightCannibals initialState"
    and small: "M < INT_MAX" "C < INT_MAX" "M + C \<le> INT_MAX"
  shows "\<exists>found \<sigma>. search initialState = Inr (found, \<sigma>) \<and>
           solveMissionariesCannibals initialState = Inr found \<and>
           distinct (console \<sigma>) \<and> set (console \<sigma>) = exploredStates \<sigma> \<and>
           int (length (console \<sigma>)) \<le> 2 * (M + 1) * (C + 1)"
proof -
  have w: "within M C initialState"
    using nonneg M C by (simp add: within_def)
  then have "tidy M C \<lparr>statesToExplore = [initialState], exploredStates = {}, console = []\<rparr>"
    by (simp add: tidy_def held_def)
  from whileLoop_returns [OF this small] obtain found \<sigma>
    where run: "search initialState = Inr (found, \<sigma>)" and t: "tidy M C \<sigma>"
    by (auto simp: search_def)
  from nonneg M C have pos: "0 \<le> M" "0 \<le> C" by simp_all
  from t have "set (console \<sigma>) \<subseteq> {s. within M C s}"
    by (auto simp: tidy_def held_def)
  then have "card (set (console \<sigma>)) \<le> card {s. within M C s}"
    using card_within(1) [OF pos] by (simp add: card_mono)
  moreover from t have d: "distinct (console \<sigma>)" by (simp add: tidy_def)
  ultimately have "int (length (console \<sigma>)) \<le> int (card {s. within M C s})"
    by (simp add: distinct_card)
  also note card_within(2) [OF pos]
  finally have "int (length (console \<sigma>)) \<le> 2 * (M + 1) * (C + 1)" .
  with run t d show ?thesis
    by (auto simp: solveMissionariesCannibals_def tidy_def)
qed

text \<open>One missionary on the left bank: at most four states are expanded.\<close>

theorem search_terminates_bounded_witness:
  "(0::int) \<le> 1 \<and> (1::int) < INT_MAX \<and> (0::int) < INT_MAX \<and> (1::int) + 0 \<le> INT_MAX \<and>
   (\<exists>found \<sigma>.
      search \<lparr>leftMissionaries = 1, leftCannibals = 0, rightMissionaries = 0,
            rightCannibals = 0, boatOnLeft = True\<rparr> = Inr (found, \<sigma>) \<and>
      solveMissionariesCannibals \<lparr>leftMissionaries = 1, leftCannibals = 0,
            rightMissionaries = 0, rightCannibals = 0, boatOnLeft = True\<rparr> = Inr found \<and>
      distinct (console \<sigma>) \<and> set (console \<sigma>) = exploredStates \<sigma> \<and>
      int (length (console \<sigma>)) \<le> 2 * (1 + 1) * (0 + 1))"
  using search_terminates_bounded [of "\<lparr>leftMissionaries = 1, leftCannibals = 0,
      rightMissionaries = 0, rightCannibals = 0, boatOnLeft = True\<rparr>" 1 0]
  by (simp add: INT_MAX_def)

subsection \<open>Scenarios\<close>

text \<open>
  C1: from three missionaries and three cannibals on the left bank, nobody on the right
  and the boat on the left, \<open>solveMissionariesCannibals\<close> returns true.
\<close>

theorem solve_3_3:
  "solveMissionariesCannibals
     \<lparr>leftMissionaries = 3, leftCannibals = 3, rightMissionaries = 0, rightCannibals = 0,
      boatOnLeft = True\<rparr> = Inr True"
  by code_simp

text \<open>
  C2 says that from four missionaries and four cannibals on the left bank the search
  returns true. It does not: the search explores the eleven states it can reach, none
  of which is the goal, and returns false.
\<close>

theorem solve_4_4_not_true:
  "solveMissionariesCannibals
     \<lparr>leftMissionaries = 4, leftCannibals = 4, rightMissionaries = 0, rightCannibals = 0,
      boatOnLeft = True\<rparr> \<noteq> Inr True"
  by code_simp

text \<open>
  C2, amended: from four missionaries and four cannibals on the left bank, nobody on the
  right and the boat on the left, \<open>solveMissionariesCannibals\<close> returns false.
\<close>

theorem solve_4_4:
  "solveMissionariesCannibals
     \<lparr>leftMissionaries = 4, leftCannibals = 4, rightMissionaries = 0, rightCannibals = 0,
      boatOnLeft = True\<rparr> = Inr False"
  by code_simp

text \<open>
  C7: with nobody on either bank and the boat on the left,
  \<open>solveMissionariesCannibals\<close> returns false: the initial state is explored and is
  not the goal, since the boat is on the left, and \<open>getValidMoves\<close> returns no successor
  for it, so the queue is empty after the first iteration.
\<close>

theorem solve_0_0:
  "solveMissionariesCannibals
     \<lparr>leftMissionaries = 0, leftCannibals = 0, rightMissionaries = 0, rightCannibals = 0,
      boatOnLeft = True\<rparr> = Inr False \<and>
   getValidMoves
     \<lparr>leftMissionaries = 0, leftCannibals = 0, rightMissionaries = 0, rightCannibals = 0,
      boatOnLeft = True\<rparr> = Inr [] \<and>
   search
     \<lparr>leftMissionaries = 0, leftCannibals = 0, rightMissionaries = 0, rightCannibals = 0,
      boatOnLeft = True\<rparr> =
     Inr (False,
       \<lparr>statesToExplore = [],
        exploredStates = {\<lparr>leftMissionaries = 0, leftCannibals = 0, rightMissionaries = 0,
          rightCannibals = 0, boatOnLeft = True\<rparr>},
        console = [\<lparr>leftMissionaries = 0, leftCannibals = 0, rightMissionaries = 0,
          rightCannibals = 0, boatOnLeft = True\<rparr>]\<rparr>)"
  by (simp add: solveMissionariesCannibals_def search_def whileLoop.simps loopBody_def
      getValidMoves_def for_upto.simps crossToRight_def checked_def INT_MAX_def INT_MIN_def)

subsection \<open>The command line\<close>

text \<open>
  C10: with exactly one argument, which \<^verbatim>\<open>std::stoi\<close> parses as \<open>n\<close>, the initial state
  has \<open>n\<close> missionaries and no cannibal on the left bank, nobody on the right bank and
  the boat on the left. The \<^verbatim>\<open>switch\<close> is left by \<^verbatim>\<open>return 1\<close> when \<open>n\<close> is negative and
  by \<^verbatim>\<open>break\<close> otherwise.
\<close>

theorem one_argument_initial_state:
  assumes "length argv = 2" and "stoi (argv ! 1) = Inr n"
  shows "switchArgc stoi argv =
     (\<lparr>leftMissionaries = n, leftCannibals = 0, rightMissionaries = 0, rightCannibals = 0,
       boatOnLeft = True\<rparr>,
      if n < 0 then ReturnEarly 1 ''Missionary count cannot be negative.'' else Break)"
  using assms by (simp add: switchArgc_def case2_def)

theorem one_argument_initial_state_witness:
  "length [''mc'', ''5''] = 2 \<and> (\<lambda>a. Inr 5 :: stoi_error + int) ([''mc'', ''5''] ! 1) = Inr 5 \<and>
   switchArgc (\<lambda>a. Inr 5) [''mc'', ''5''] =
     (\<lparr>leftMissionaries = 5, leftCannibals = 0, rightMissionaries = 0, rightCannibals = 0,
       boatOnLeft = True\<rparr>, Break)"
  using one_argument_initial_state [of "[''mc'', ''5'']" "\<lambda>a. Inr 5" 5] by simp

text \<open>
  C9, amended: with one or two arguments that \<^verbatim>\<open>std::stoi\<close> parses, the program prints
  one line of error and exits with status 1, printing no state, when a count is negative
  (with two arguments the cannibal count is read first, and a negative one ends the run
  before the missionary count is parsed). When the counts are non-negative and below
  \<open>INT_MAX\<close>, with a sum of at most \<open>INT_MAX\<close>, the search runs from them, and the program
  prints the states the search printed and the verdict, and exits with status 0.
\<close>

theorem main_exit_status:
  "(length argv = 2 \<and> stoi (argv ! 1) = Inr m \<and> m < 0 \<longrightarrow>
      main stoi argv = Exit 1 [TextLine ''Missionary count cannot be negative.'']) \<and>
   (length argv = 3 \<and> stoi (argv ! 2) = Inr c \<and> c < 0 \<longrightarrow>
      main stoi argv = Exit 1 [TextLine ''Cannibal count cannot be negative.'']) \<and>
   (length argv = 3 \<and> stoi (argv ! 2) = Inr c \<and> 0 \<le> c \<and> stoi (argv ! 1) = Inr m \<and> m < 0 \<longrightarrow>
      main stoi argv = Exit 1 [TextLine ''Missionary count cannot be negative.'']) \<and>
   (length argv = 2 \<and> stoi (argv ! 1) = Inr m \<and> 0 \<le> m \<and> m < INT_MAX \<longrightarrow>
      (\<exists>found \<sigma>.
         search \<lparr>leftMissionaries = m, leftCannibals = 0, rightMissionaries = 0,
           rightCannibals = 0, boatOnLeft = True\<rparr> = Inr (found, \<sigma>) \<and>
         main stoi argv = Exit 0 (map StateLines (console \<sigma>) @
           [TextLine (if found then ''Solution found!'' else ''No solution exists.'')]))) \<and>
   (length argv = 3 \<and> stoi (argv ! 2) = Inr c \<and> stoi (argv ! 1) = Inr m \<and> 0 \<le> c \<and> 0 \<le> m \<and>
    m < INT_MAX \<and> c < INT_MAX \<and> m + c \<le> INT_MAX \<longrightarrow>
      (\<exists>found \<sigma>.
         search \<lparr>leftMissionaries = m, leftCannibals = c, rightMissionaries = 0,
           rightCannibals = 0, boatOnLeft = True\<rparr> = Inr (found, \<sigma>) \<and>
         main stoi argv = Exit 0 (map StateLines (console \<sigma>) @
           [TextLine (if found then ''Solution found!'' else ''No solution exists.'')])))"
proof (intro conjI impI)
  assume "length argv = 2 \<and> stoi (argv ! 1) = Inr m \<and> m < 0"
  then show "main stoi argv = Exit 1 [TextLine ''Missionary count cannot be negative.'']"
    by (simp add: main_def switchArgc_def case2_def)
next
  assume "length argv = 3 \<and> stoi (argv ! 2) = Inr c \<and> c < 0"
  then show "main stoi argv = Exit 1 [TextLine ''Cannibal count cannot be negative.'']"
    by (simp add: main_def switchArgc_def case3_def)
next
  assume "length argv = 3 \<and> stoi (argv ! 2) = Inr c \<and> 0 \<le> c \<and> stoi (argv ! 1) = Inr m \<and> m < 0"
  then show "main stoi argv = Exit 1 [TextLine ''Missionary count cannot be negative.'']"
    by (simp add: main_def switchArgc_def case3_def case2_def)
next
  let ?init = "\<lparr>leftMissionaries = m, leftCannibals = 0, rightMissionaries = 0,
           rightCannibals = 0, boatOnLeft = True\<rparr>"
  assume a: "length argv = 2 \<and> stoi (argv ! 1) = Inr m \<and> 0 \<le> m \<and> m < INT_MAX"
  then have sw: "switchArgc stoi argv = (?init, Break)"
    by (simp add: switchArgc_def case2_def)
  from a have "tidy m 0 \<lparr>statesToExplore = [?init], exploredStates = {}, console = []\<rparr>"
    by (simp add: tidy_def held_def within_def)
  from whileLoop_returns [OF this] a obtain found \<sigma> where "search ?init = Inr (found, \<sigma>)"
    by (auto simp: search_def INT_MAX_def)
  with sw show "\<exists>found \<sigma>. search ?init = Inr (found, \<sigma>) \<and>
      main stoi argv = Exit 0 (map StateLines (console \<sigma>) @
        [TextLine (if found then ''Solution found!'' else ''No solution exists.'')])"
    by (simp add: main_def)
next
  let ?init = "\<lparr>leftMissionaries = m, leftCannibals = c, rightMissionaries = 0,
           rightCannibals = 0, boatOnLeft = True\<rparr>"
  assume a: "length argv = 3 \<and> stoi (argv ! 2) = Inr c \<and> stoi (argv ! 1) = Inr m \<and> 0 \<le> c \<and>
    0 \<le> m \<and> m < INT_MAX \<and> c < INT_MAX \<and> m + c \<le> INT_MAX"
  then have sw: "switchArgc stoi argv = (?init, Break)"
    by (simp add: switchArgc_def case3_def case2_def)
  from a have "tidy m c \<lparr>statesToExplore = [?init], exploredStates = {}, console = []\<rparr>"
    by (simp add: tidy_def held_def within_def)
  from whileLoop_returns [OF this] a obtain found \<sigma> where "search ?init = Inr (found, \<sigma>)"
    by (auto simp: search_def)
  with sw show "\<exists>found \<sigma>. search ?init = Inr (found, \<sigma>) \<and>
      main stoi argv = Exit 0 (map StateLines (console \<sigma>) @
        [TextLine (if found then ''Solution found!'' else ''No solution exists.'')])"
    by (simp add: main_def)
qed

text \<open>
  One run for each case: a negative missionary count, a negative cannibal count, a
  negative missionary count after a cannibal count that passed, and a search with one and
  with two arguments.
\<close>

theorem main_exit_status_witness:
  "main (\<lambda>a. Inr (- 1)) [''mc'', ''-1''] =
     Exit 1 [TextLine ''Missionary count cannot be negative.''] \<and>
   main (\<lambda>a. Inr (- 1)) [''mc'', ''3'', ''-1''] =
     Exit 1 [TextLine ''Cannibal count cannot be negative.''] \<and>
   main (\<lambda>a. if a = ''-1'' then Inr (- 1) else Inr 3) [''mc'', ''-1'', ''3''] =
     Exit 1 [TextLine ''Missionary count cannot be negative.''] \<and>
   main (\<lambda>a. Inr 1) [''mc'', ''1''] =
     Exit 0 [StateLines \<lparr>leftMissionaries = 1, leftCannibals = 0, rightMissionaries = 0,
               rightCannibals = 0, boatOnLeft = True\<rparr>,
             StateLines \<lparr>leftMissionaries = 0, leftCannibals = 0, rightMissionaries = 1,
               rightCannibals = 0, boatOnLeft = False\<rparr>,
             TextLine ''Solution found!''] \<and>
   main (\<lambda>a. if a = ''0'' then Inr 0 else Inr 1) [''mc'', ''1'', ''0''] =
     Exit 0 [StateLines \<lparr>leftMissionaries = 1, leftCannibals = 0, rightMissionaries = 0,
               rightCannibals = 0, boatOnLeft = True\<rparr>,
             StateLines \<lparr>leftMissionaries = 0, leftCannibals = 0, rightMissionaries = 1,
               rightCannibals = 0, boatOnLeft = False\<rparr>,
             TextLine ''Solution found!'']"
proof -
  let ?init = "\<lparr>leftMissionaries = 1, leftCannibals = 0, rightMissionaries = 0,
      rightCannibals = 0, boatOnLeft = True\<rparr>"
  let ?goal = "\<lparr>leftMissionaries = 0, leftCannibals = 0, rightMissionaries = 1,
      rightCannibals = 0, boatOnLeft = False\<rparr>"
  have moves: "getValidMoves ?init = Inr [?goal]"
    by code_simp
  have run: "search ?init =
      Inr (True, \<lparr>statesToExplore = [], exploredStates = {?goal, ?init},
        console = [?init, ?goal]\<rparr>)"
    by (simp add: search_def whileLoop.simps loopBody_def moves)
  have "main (\<lambda>a. Inr (- 1)) [''mc'', ''-1''] =
      Exit 1 [TextLine ''Missionary count cannot be negative.'']"
    using main_exit_status [of "[''mc'', ''-1'']" "\<lambda>a. Inr (- 1)" "- 1" 0] by simp
  moreover have "main (\<lambda>a. Inr (- 1)) [''mc'', ''3'', ''-1''] =
      Exit 1 [TextLine ''Cannibal count cannot be negative.'']"
    using main_exit_status [of "[''mc'', ''3'', ''-1'']" "\<lambda>a. Inr (- 1)" "- 1" "- 1"] by simp
  moreover have "main (\<lambda>a. if a = ''-1'' then Inr (- 1) else Inr 3) [''mc'', ''-1'', ''3''] =
      Exit 1 [TextLine ''Missionary count cannot be negative.'']"
    using main_exit_status [of "[''mc'', ''-1'', ''3'']"
        "\<lambda>a. if a = ''-1'' then Inr (- 1) else Inr 3" "- 1" 3] by simp
  moreover have "main (\<lambda>a. Inr 1) [''mc'', ''1''] =
      Exit 0 [StateLines ?init, StateLines ?goal, TextLine ''Solution found!'']"
    using main_exit_status [of "[''mc'', ''1'']" "\<lambda>a. Inr 1" 1 0] run
    by (auto simp: INT_MAX_def)
  moreover have "main (\<lambda>a. if a = ''0'' then Inr 0 else Inr 1) [''mc'', ''1'', ''0''] =
      Exit 0 [StateLines ?init, StateLines ?goal, TextLine ''Solution found!'']"
    using main_exit_status [of "[''mc'', ''1'', ''0'']"
        "\<lambda>a. if a = ''0'' then Inr 0 else Inr 1" 1 0] run
    by (auto simp: INT_MAX_def)
  ultimately show ?thesis by simp
qed

text \<open>
  C9 says that every invocation with non-negative counts exits with status 0. With the
  argument 2147483647 the search never returns to \<^verbatim>\<open>main\<close>: the move generator overflows
  its loop counter.
\<close>

theorem main_undefined_at_INT_MAX:
  "main (\<lambda>a. Inr 2147483647) [''mc'', ''2147483647''] = UndefinedBehaviour SignedOverflow"
  by (simp add: main_def switchArgc_def case2_def search_INT_MAX)

end
